theory Spec2Isabelle
  imports Complex_Main
begin

section \<open>Strings\<close>

text \<open>
  A TypeScript string is a sequence of UTF-16 code units; a code unit is modelled as a
  natural number. \<open>js\<close> turns an ASCII literal into its code units.
\<close>

type_synonym jsstring = "nat list"

definition js :: "string \<Rightarrow> jsstring" where
  "js s = map of_char s"

text \<open>
  \<^verbatim>\<open>String.prototype.trim\<close> removes, at both ends, the code units that ECMAScript
  calls WhiteSpace (TAB, VT, FF, ZWNBSP and the space separators) and LineTerminator
  (LF, CR, LS, PS).
\<close>

definition isWhiteSpace :: "nat \<Rightarrow> bool" where
  "isWhiteSpace c \<longleftrightarrow>
     c = 0x09 \<or> c = 0x0A \<or> c = 0x0B \<or> c = 0x0C \<or> c = 0x0D \<or> c = 0x20 \<or> c = 0xA0 \<or>
     c = 0x1680 \<or> (0x2000 \<le> c \<and> c \<le> 0x200A) \<or> c = 0x2028 \<or> c = 0x2029 \<or>
     c = 0x202F \<or> c = 0x205F \<or> c = 0x3000 \<or> c = 0xFEFF"

definition trim :: "jsstring \<Rightarrow> jsstring" where
  "trim s = rev (dropWhile isWhiteSpace (rev (dropWhile isWhiteSpace s)))"

definition startsWith :: "jsstring \<Rightarrow> jsstring \<Rightarrow> bool" where
  "startsWith s p \<longleftrightarrow> take (length p) s = p"

section \<open>Data model (types/url.ts)\<close>

text \<open>\<open>createdAt\<close> is the creation instant in milliseconds.\<close>

record UrlFormData =
  url :: jsstring
  title :: jsstring

record SavedUrl =
  id' :: jsstring
  url :: jsstring
  title :: jsstring
  createdAt :: int
  isActive :: bool

section \<open>The URL store (pages/QRCodeApp.tsx)\<close>

text \<open>
  The collection is the state \<open>urls\<close> of the page component. Every operation hands the
  state setter an updater \<open>prev => ...\<close>; the operation is modelled as that updater, a
  function from the collection before to the collection after. An event handler issues
  one update and the component is rendered again before the next event, so the \<open>urls\<close>
  that \<open>addUrl\<close> reads in its closure is the \<open>prev\<close> its updater receives. The identifier
  produced by \<open>generateId\<close> and the instant of \<open>new Date()\<close> are parameters. The hook
  \<open>useLocalStorage\<close> that holds the state is not among the sources; its setter is taken
  to install the result of the updater, which is how the specification describes the
  store (the collection is written out after every mutation).
\<close>

definition activeUrl :: "SavedUrl list \<Rightarrow> SavedUrl option" where
  "activeUrl urls = find isActive urls"

definition addUrl :: "SavedUrl list \<Rightarrow> UrlFormData \<Rightarrow> jsstring \<Rightarrow> int \<Rightarrow> SavedUrl list" where
  "addUrl urls urlData newId now =
     urls @ [\<lparr> id' = newId, url = UrlFormData.url urlData, title = UrlFormData.title urlData,
               createdAt = now, isActive = (length urls = 0) \<rparr>]"

definition updateUrl :: "jsstring \<Rightarrow> UrlFormData \<Rightarrow> SavedUrl list \<Rightarrow> SavedUrl list" where
  "updateUrl i urlData prev =
     map (\<lambda>u. if id' u = i
               then u\<lparr> url := UrlFormData.url urlData, title := UrlFormData.title urlData \<rparr>
               else u) prev"

text \<open>
  \<open>deleteUrl\<close> reads \<open>wasActive\<close> from the first record with the identifier (\<open>undefined\<close>,
  which is falsy, when there is none) and then sets the flag of the first remaining
  record.
\<close>

definition deleteUrl :: "jsstring \<Rightarrow> SavedUrl list \<Rightarrow> SavedUrl list" where
  "deleteUrl i prev =
     (let remaining = filter (\<lambda>u. id' u \<noteq> i) prev;
          wasActive = (case find (\<lambda>u. id' u = i) prev of None \<Rightarrow> False | Some u \<Rightarrow> isActive u)
      in if wasActive \<and> length remaining > 0
         then (hd remaining)\<lparr> isActive := True \<rparr> # tl remaining
         else remaining)"

definition setActiveUrl :: "jsstring \<Rightarrow> SavedUrl list \<Rightarrow> SavedUrl list" where
  "setActiveUrl i prev = map (\<lambda>u. u\<lparr> isActive := (id' u = i) \<rparr>) prev"

section \<open>The form (components/UrlManagement.tsx)\<close>

definition normalizeUrl :: "jsstring \<Rightarrow> jsstring" where
  "normalizeUrl u =
     (let trimmed = trim u
      in if startsWith trimmed (js ''http://'') \<or> startsWith trimmed (js ''https://'')
         then trimmed
         else js ''https://'' @ trimmed)"

text \<open>
  \<open>handleSubmit\<close> is where the add and update operations validate and normalise their
  input. With an empty field it shows the destructive toast "Please fill in both URL and
  title" and returns before any callback runs: that early return is the error value
  \<open>ValidationError\<close>. \<open>editingId\<close> is \<open>string | null\<close> and is tested for truthiness:
  \<open>null\<close> and the empty string both select the add branch.
\<close>

datatype error = ValidationError | TypeError

record form_state =
  formData :: UrlFormData
  editingId :: "jsstring option"
  isAdding :: bool

definition emptyForm :: UrlFormData where
  "emptyForm = \<lparr> UrlFormData.url = [], UrlFormData.title = [] \<rparr>"

definition handleSubmit ::
  "form_state \<Rightarrow> SavedUrl list \<Rightarrow> jsstring \<Rightarrow> int \<Rightarrow> error + (form_state \<times> SavedUrl list)" where
  "handleSubmit st urls newId now =
     (if trim (UrlFormData.url (formData st)) = [] \<or> trim (UrlFormData.title (formData st)) = []
      then Inl ValidationError
      else
        let normalizedFormData =
              \<lparr> UrlFormData.url = normalizeUrl (UrlFormData.url (formData st)),
                UrlFormData.title = UrlFormData.title (formData st) \<rparr>
        in case editingId st of
             Some i \<Rightarrow>
               if i \<noteq> []
               then Inr (st\<lparr> formData := emptyForm, editingId := None \<rparr>,
                         updateUrl i normalizedFormData urls)
               else Inr (st\<lparr> formData := emptyForm, isAdding := False \<rparr>,
                         addUrl urls normalizedFormData newId now)
           | None \<Rightarrow>
               Inr (st\<lparr> formData := emptyForm, isAdding := False \<rparr>,
                    addUrl urls normalizedFormData newId now))"

text \<open>The collection after the submit event: a failed submit leaves it as it was.\<close>

definition urlsAfterSubmit :: "form_state \<Rightarrow> SavedUrl list \<Rightarrow> jsstring \<Rightarrow> int \<Rightarrow> SavedUrl list" where
  "urlsAfterSubmit st urls newId now =
     (case handleSubmit st urls newId now of Inl e \<Rightarrow> urls | Inr (st', urls') \<Rightarrow> urls')"

section \<open>The carousel (components/QRCodeGenerator.tsx)\<close>

text \<open>\<open>Array.prototype.findIndex\<close>: the first index whose element passes, or \<open>-1\<close>.\<close>

fun findIndex :: "('a \<Rightarrow> bool) \<Rightarrow> 'a list \<Rightarrow> int" where
  "findIndex P [] = - 1"
| "findIndex P (x # xs) =
     (if P x then 0 else (let r = findIndex P xs in if r = - 1 then - 1 else r + 1))"

definition currentIndex :: "SavedUrl list \<Rightarrow> SavedUrl option \<Rightarrow> int" where
  "currentIndex urls active =
     (case active of Some a \<Rightarrow> findIndex (\<lambda>u. id' u = id' a) urls | None \<Rightarrow> - 1)"

definition hasMultipleUrls :: "SavedUrl list \<Rightarrow> bool" where
  "hasMultipleUrls urls \<longleftrightarrow> length urls \<ge> 2"

text \<open>
  \<open>urls[k].id\<close> throws a TypeError when \<open>k\<close> is not an index of the array.
\<close>

definition idAt :: "SavedUrl list \<Rightarrow> int \<Rightarrow> error + jsstring" where
  "idAt urls k =
     (if 0 \<le> k \<and> k < int (length urls) then Inr (id' (urls ! nat k)) else Inl TypeError)"

text \<open>
  A navigation function returns the identifier it passes to \<open>onSetActiveUrl\<close>, or
  \<open>None\<close> when it returns without a call. The remainder \<open>%\<close> is taken of a
  non-negative number there, where it agrees with \<open>mod\<close>.
\<close>

definition navigateNext :: "SavedUrl list \<Rightarrow> SavedUrl option \<Rightarrow> error + jsstring option" where
  "navigateNext urls active =
     (if \<not> hasMultipleUrls urls \<or> currentIndex urls active = - 1 then Inr None
      else
        let nextIndex = (currentIndex urls active + 1) mod int (length urls)
        in case idAt urls nextIndex of Inl e \<Rightarrow> Inl e | Inr i \<Rightarrow> Inr (Some i))"

definition navigatePrevious :: "SavedUrl list \<Rightarrow> SavedUrl option \<Rightarrow> error + jsstring option" where
  "navigatePrevious urls active =
     (if \<not> hasMultipleUrls urls \<or> currentIndex urls active = - 1 then Inr None
      else
        let prevIndex = (if currentIndex urls active = 0 then int (length urls) - 1
                         else currentIndex urls active - 1)
        in case idAt urls prevIndex of Inl e \<Rightarrow> Inl e | Inr i \<Rightarrow> Inr (Some i))"

text \<open>
  Modelled from the spec: the page component in the sources renders the carousel with
  the \<open>activeUrl\<close> prop only, so the binding of its props \<open>urls\<close> and \<open>onSetActiveUrl\<close> is
  missing. Following the specification of the navigator ("issues setActive on the record
  at that index", over "the same ordered collection"), \<open>urls\<close> is the store's collection,
  \<open>activeUrl\<close> its active record and \<open>onSetActiveUrl\<close> the store's \<open>setActiveUrl\<close>.
  \<open>goNext\<close> and \<open>goPrevious\<close> are the collection after \<open>navigateNext\<close> and
  \<open>navigatePrevious\<close>.
\<close>

definition onSetActiveUrl :: "error + jsstring option \<Rightarrow> SavedUrl list \<Rightarrow> error + SavedUrl list" where
  "onSetActiveUrl call urls =
     (case call of
        Inl e \<Rightarrow> Inl e
      | Inr None \<Rightarrow> Inr urls
      | Inr (Some i) \<Rightarrow> Inr (setActiveUrl i urls))"

definition goNext :: "SavedUrl list \<Rightarrow> error + SavedUrl list" where
  "goNext urls = onSetActiveUrl (navigateNext urls (activeUrl urls)) urls"

definition goPrevious :: "SavedUrl list \<Rightarrow> error + SavedUrl list" where
  "goPrevious urls = onSetActiveUrl (navigatePrevious urls (activeUrl urls)) urls"

subsection \<open>Swipe gestures\<close>

text \<open>
  \<open>touchStart\<close> and \<open>touchEnd\<close> are \<open>number | null\<close>: the \<open>clientX\<close> of the first touch
  point, a real number of pixels. \<open>handleTouchEnd\<close> tests both with \<open>!\<close>, which holds
  of \<open>null\<close> and of the number \<open>0\<close>.
\<close>

record touch_state =
  touchStart :: "real option"
  touchEnd :: "real option"

definition handleTouchStart :: "real \<Rightarrow> touch_state \<Rightarrow> touch_state" where
  "handleTouchStart clientX ts = \<lparr> touchStart = Some clientX, touchEnd = None \<rparr>"

definition handleTouchMove :: "real \<Rightarrow> touch_state \<Rightarrow> touch_state" where
  "handleTouchMove clientX ts = ts\<lparr> touchEnd := Some clientX \<rparr>"

definition falsy :: "real option \<Rightarrow> bool" where
  "falsy v = (case v of None \<Rightarrow> True | Some x \<Rightarrow> x = 0)"

definition minSwipeDistance :: real where
  "minSwipeDistance = 50"

datatype navigation = NoNavigation | NavigateNext | NavigatePrevious

definition handleTouchEnd :: "touch_state \<Rightarrow> SavedUrl list \<Rightarrow> navigation" where
  "handleTouchEnd ts urls =
     (if falsy (touchStart ts) \<or> falsy (touchEnd ts) \<or> \<not> hasMultipleUrls urls then NoNavigation
      else case (touchStart ts, touchEnd ts) of
        (Some s, Some e) \<Rightarrow>
          (let distance = s - e;
               isLeftSwipe = distance > minSwipeDistance;
               isRightSwipe = distance < - minSwipeDistance
           in if isLeftSwipe then NavigateNext
              else if isRightSwipe then NavigatePrevious
              else NoNavigation)
      | _ \<Rightarrow> NoNavigation)"

section \<open>Runs of store operations and the invariants\<close>

datatype op =
    Add UrlFormData jsstring int
  | Update jsstring UrlFormData
  | Delete jsstring
  | SetActive jsstring

fun step :: "SavedUrl list \<Rightarrow> op \<Rightarrow> SavedUrl list" where
  "step urls (Add urlData newId now) = addUrl urls urlData newId now"
| "step urls (Update i urlData) = updateUrl i urlData urls"
| "step urls (Delete i) = deleteUrl i urls"
| "step urls (SetActive i) = setActiveUrl i urls"

definition run :: "SavedUrl list \<Rightarrow> op list \<Rightarrow> SavedUrl list" where
  "run urls ops = foldl step urls ops"

definition activeCount :: "SavedUrl list \<Rightarrow> nat" where
  "activeCount urls = length (filter isActive urls)"

definition I1 :: "SavedUrl list \<Rightarrow> bool" where
  "I1 urls \<longleftrightarrow> activeCount urls \<le> 1"

definition I2 :: "SavedUrl list \<Rightarrow> bool" where
  "I2 urls \<longleftrightarrow> (urls \<noteq> [] \<longrightarrow> activeCount urls = 1)"

definition I3 :: "SavedUrl list \<Rightarrow> bool" where
  "I3 urls \<longleftrightarrow> distinct (map id' urls)"

definition hasId :: "jsstring \<Rightarrow> SavedUrl list \<Rightarrow> bool" where
  "hasId i urls \<longleftrightarrow> i \<in> set (map id' urls)"

text \<open>
  An operation is admissible when an added record gets an identifier no record has yet
  (what \<open>generateId\<close> is for) and an activation names a record of the collection (the
  identifier comes from a rendered record in every caller).
\<close>

fun admissible :: "SavedUrl list \<Rightarrow> op \<Rightarrow> bool" where
  "admissible urls (Add urlData newId now) = (\<not> hasId newId urls)"
| "admissible urls (SetActive i) = hasId i urls"
| "admissible urls _ = True"

fun admissibleRun :: "SavedUrl list \<Rightarrow> op list \<Rightarrow> bool" where
  "admissibleRun urls [] = True"
| "admissibleRun urls (x # xs) = (admissible urls x \<and> admissibleRun (step urls x) xs)"

section \<open>Example records\<close>

definition exA :: SavedUrl where
  "exA = \<lparr> id' = js ''a'', url = js ''https://a.org'', title = js ''A'', createdAt = 1,
           isActive = True \<rparr>"

definition exB :: SavedUrl where
  "exB = \<lparr> id' = js ''b'', url = js ''https://b.org'', title = js ''B'', createdAt = 2,
           isActive = False \<rparr>"

definition exC :: SavedUrl where
  "exC = \<lparr> id' = js ''c'', url = js ''https://c.org'', title = js ''C'', createdAt = 3,
           isActive = False \<rparr>"

definition exForm :: UrlFormData where
  "exForm = \<lparr> UrlFormData.url = js ''https://example.com'', UrlFormData.title = js ''Example'' \<rparr>"

definition noTouch :: touch_state where
  "noTouch = \<lparr> touchStart = None, touchEnd = None \<rparr>"

lemmas ex_defs = exA_def exB_def exC_def exForm_def js_def

section \<open>Adding a record\<close>

text \<open>
  C3. \<open>addUrl\<close> appends exactly one record at the end of the collection and leaves the
  records before it as they were; the new record is active precisely when the collection
  was empty, and carries the given identifier, url, title and creation instant.
\<close>

theorem addUrl_appends_first_active:
  "isActive (last (addUrl urls urlData newId now)) = (urls = []) \<and>
   butlast (addUrl urls urlData newId now) = urls \<and>
   addUrl urls urlData newId now = urls @ [last (addUrl urls urlData newId now)] \<and>
   id' (last (addUrl urls urlData newId now)) = newId \<and>
   SavedUrl.url (last (addUrl urls urlData newId now)) = UrlFormData.url urlData \<and>
   SavedUrl.title (last (addUrl urls urlData newId now)) = UrlFormData.title urlData \<and>
   createdAt (last (addUrl urls urlData newId now)) = now"
  by (simp add: addUrl_def)

theorem addUrl_appends_first_active_witness:
  "isActive (last (addUrl [] exForm (js ''a'') 1)) \<and>
   \<not> isActive (last (addUrl [exA] exForm (js ''b'') 2)) \<and>
   butlast (addUrl [exA] exForm (js ''b'') 2) = [exA]"
  using addUrl_appends_first_active [of "[]" exForm "js ''a''" 1]
    addUrl_appends_first_active [of "[exA]" exForm "js ''b''" 2]
  by simp

section \<open>Updating a record\<close>

text \<open>
  C9. \<open>updateUrl\<close> keeps the length of the collection, and at every position it keeps
  the identifier, the creation instant and the active flag of the record there. A record
  with the given identifier gets the new url and title; any other record is unchanged.
\<close>

theorem updateUrl_frame:
  "k < length urls \<Longrightarrow>
   length (updateUrl i urlData urls) = length urls \<and>
   id' (updateUrl i urlData urls ! k) = id' (urls ! k) \<and>
   createdAt (updateUrl i urlData urls ! k) = createdAt (urls ! k) \<and>
   isActive (updateUrl i urlData urls ! k) = isActive (urls ! k) \<and>
   (if id' (urls ! k) = i
    then SavedUrl.url (updateUrl i urlData urls ! k) = UrlFormData.url urlData \<and>
         SavedUrl.title (updateUrl i urlData urls ! k) = UrlFormData.title urlData
    else updateUrl i urlData urls ! k = urls ! k)"
  by (simp add: updateUrl_def)

theorem updateUrl_frame_witness:
  "(1::nat) < length [exA, exB, exC] \<and>
   length (updateUrl (js ''b'') exForm [exA, exB, exC]) = 3 \<and>
   id' (updateUrl (js ''b'') exForm [exA, exB, exC] ! 1) = js ''b'' \<and>
   createdAt (updateUrl (js ''b'') exForm [exA, exB, exC] ! 1) = 2 \<and>
   \<not> isActive (updateUrl (js ''b'') exForm [exA, exB, exC] ! 1) \<and>
   SavedUrl.url (updateUrl (js ''b'') exForm [exA, exB, exC] ! 1) = js ''https://example.com'' \<and>
   SavedUrl.title (updateUrl (js ''b'') exForm [exA, exB, exC] ! 1) = js ''Example''"
  using updateUrl_frame [of 1 "[exA, exB, exC]" "js ''b''" exForm]
  by (simp add: ex_defs)

section \<open>Identifiers that match no record\<close>

lemma find_absent: "i \<notin> set (map id' urls) \<Longrightarrow> find (\<lambda>u. id' u = i) urls = None"
  by (induction urls) auto

lemma filter_absent: "i \<notin> set (map id' urls) \<Longrightarrow> filter (\<lambda>u. id' u \<noteq> i) urls = urls"
  by (induction urls) auto

lemma map_absent:
  "i \<notin> set (map id' urls) \<Longrightarrow> map (\<lambda>u. if id' u = i then f u else u) urls = urls"
  by (induction urls) auto

text \<open>
  C10. When no record has the identifier, \<open>updateUrl\<close> and \<open>deleteUrl\<close> return the
  collection they were given. Neither has an error result: the optional chaining in
  \<open>deleteUrl\<close> reads \<open>undefined\<close> where there is no record, and nothing is thrown.
\<close>

theorem absent_id_silent_noop:
  "\<not> hasId i urls \<Longrightarrow> updateUrl i urlData urls = urls \<and> deleteUrl i urls = urls"
  by (simp add: hasId_def updateUrl_def deleteUrl_def find_absent filter_absent map_absent
      del: set_map)

theorem absent_id_silent_noop_witness:
  "\<not> hasId (js ''z'') [exA, exB] \<and>
   updateUrl (js ''z'') exForm [exA, exB] = [exA, exB] \<and>
   deleteUrl (js ''z'') [exA, exB] = [exA, exB]"
proof -
  have h: "\<not> hasId (js ''z'') [exA, exB]"
    by (simp add: hasId_def ex_defs)
  show ?thesis
    using h absent_id_silent_noop [OF h, of exForm] by simp
qed

section \<open>Activating a record\<close>

text \<open>
  C2, as the claim states it, fails: with an identifier that no record has,
  \<open>setActiveUrl\<close> signals nothing and returns a changed collection, in which the record
  that was active is inactive.
\<close>

theorem setActiveUrl_absent_counterexample:
  "\<not> hasId (js ''z'') [exA] \<and> setActiveUrl (js ''z'') [exA] \<noteq> [exA] \<and>
   setActiveUrl (js ''z'') [exA] = [exA\<lparr> isActive := False \<rparr>]"
  by (simp add: hasId_def setActiveUrl_def ex_defs)

text \<open>
  C2, amended. For every collection, the empty one included, \<open>setActiveUrl\<close> has no
  error result and keeps the length of the collection. At every position the record
  keeps all its fields but the active flag, which becomes true exactly when the record
  has the given identifier; so when no record has the identifier, no record is active
  afterwards.
\<close>

theorem setActiveUrl_total:
  "length (setActiveUrl i urls) = length urls \<and>
   (k < length urls \<longrightarrow>
      setActiveUrl i urls ! k = (urls ! k)\<lparr> isActive := (id' (urls ! k) = i) \<rparr>) \<and>
   (\<not> hasId i urls \<longrightarrow>
      activeCount (setActiveUrl i urls) = 0 \<and>
      (k < length urls \<longrightarrow> \<not> isActive (setActiveUrl i urls ! k)))"
  by (auto simp: setActiveUrl_def hasId_def activeCount_def filter_empty_conv)

theorem setActiveUrl_total_witness:
  "length (setActiveUrl (js ''b'') []) = 0 \<and>
   (1::nat) < length [exA, exB] \<and>
   setActiveUrl (js ''b'') [exA, exB] = [exA\<lparr> isActive := False \<rparr>, exB\<lparr> isActive := True \<rparr>] \<and>
   \<not> hasId (js ''z'') [exA, exB] \<and> activeCount (setActiveUrl (js ''z'') [exA, exB]) = 0 \<and>
   \<not> isActive (setActiveUrl (js ''z'') [exA, exB] ! 0)"
  using setActiveUrl_total [of "js ''b''" "[]" 0]
    setActiveUrl_total [of "js ''b''" "[exA, exB]" 1]
    setActiveUrl_total [of "js ''b''" "[exA, exB]" 0]
    setActiveUrl_total [of "js ''z''" "[exA, exB]" 0]
  by (simp add: ex_defs hasId_def setActiveUrl_def)

section \<open>Validation in the form\<close>

text \<open>
  C5. When the url or the title of the form is empty after trimming, \<open>handleSubmit\<close>
  ends with \<open>ValidationError\<close>, whether the form is adding or editing, and the collection
  after the event is the collection before it.
\<close>

theorem handleSubmit_validation:
  "trim (UrlFormData.url (formData st)) = [] \<or> trim (UrlFormData.title (formData st)) = [] \<Longrightarrow>
   handleSubmit st urls newId now = Inl ValidationError \<and>
   urlsAfterSubmit st urls newId now = urls"
  by (auto simp: handleSubmit_def urlsAfterSubmit_def)

theorem handleSubmit_validation_witness:
  "trim (UrlFormData.url (formData
      \<lparr> formData = \<lparr> UrlFormData.url = [], UrlFormData.title = js ''X'' \<rparr>,
        editingId = None, isAdding = True \<rparr>)) = [] \<and>
   handleSubmit
      \<lparr> formData = \<lparr> UrlFormData.url = [], UrlFormData.title = js ''X'' \<rparr>,
        editingId = None, isAdding = True \<rparr> [exA] (js ''n'') 5 = Inl ValidationError \<and>
   urlsAfterSubmit
      \<lparr> formData = \<lparr> UrlFormData.url = [], UrlFormData.title = js ''X'' \<rparr>,
        editingId = None, isAdding = True \<rparr> [exA] (js ''n'') 5 = [exA] \<and>
   trim (UrlFormData.title (formData
      \<lparr> formData = \<lparr> UrlFormData.url = js ''a.org'', UrlFormData.title = js ''  '' \<rparr>,
        editingId = Some (js ''a''), isAdding = False \<rparr>)) = [] \<and>
   handleSubmit
      \<lparr> formData = \<lparr> UrlFormData.url = js ''a.org'', UrlFormData.title = js ''  '' \<rparr>,
        editingId = Some (js ''a''), isAdding = False \<rparr> [exA] (js ''n'') 5 = Inl ValidationError"
proof -
  have h1: "trim (UrlFormData.url (formData
      \<lparr> formData = \<lparr> UrlFormData.url = [], UrlFormData.title = js ''X'' \<rparr>,
        editingId = None, isAdding = True \<rparr>)) = []"
    by (simp add: trim_def)
  have h2: "trim (UrlFormData.title (formData
      \<lparr> formData = \<lparr> UrlFormData.url = js ''a.org'', UrlFormData.title = js ''  '' \<rparr>,
        editingId = Some (js ''a''), isAdding = False \<rparr>)) = []"
    by (simp add: trim_def js_def isWhiteSpace_def)
  show ?thesis
    using h1 h2 handleSubmit_validation [OF disjI1, OF h1, of "[exA]" "js ''n''" 5]
      handleSubmit_validation [OF disjI2, OF h2, of "[exA]" "js ''n''" 5]
    by simp
qed

section \<open>Swipe gestures\<close>

text \<open>
  When both coordinates are recorded and neither is the number zero, the handler calls
  \<open>navigateNext\<close> for a displacement of more than the minimum to the left,
  \<open>navigatePrevious\<close> for more than the minimum to the right, and nothing otherwise.
\<close>

lemma handleTouchEnd_nonzero:
  "hasMultipleUrls urls \<Longrightarrow> s \<noteq> 0 \<Longrightarrow> e \<noteq> 0 \<Longrightarrow>
   handleTouchEnd \<lparr> touchStart = Some s, touchEnd = Some e \<rparr> urls =
     (if s - e > minSwipeDistance then NavigateNext
      else if e - s > minSwipeDistance then NavigatePrevious
      else NoNavigation)"
  by (auto simp: handleTouchEnd_def falsy_def Let_def)

text \<open>
  C8. A gesture that starts at \<open>clientX = 100\<close> and ends at \<open>clientX = 0\<close> on a collection
  of two records has a displacement of 100 pixels, above the minimum of 50, and calls
  neither navigation function: the test \<open>!touchEnd\<close> holds of the coordinate zero as it
  does of \<open>null\<close>. The same gesture ending at \<open>clientX = 1\<close> calls \<open>navigateNext\<close>.
\<close>

theorem swipe_to_zero_fires_nothing:
  "hasMultipleUrls [exA, exB] \<and> activeUrl [exA, exB] = Some exA \<and>
   \<bar>100 - 0\<bar> > minSwipeDistance \<and>
   handleTouchEnd (handleTouchMove 0 (handleTouchStart 100 noTouch)) [exA, exB] = NoNavigation \<and>
   handleTouchEnd (handleTouchMove 100 (handleTouchStart 0 noTouch)) [exA, exB] = NoNavigation \<and>
   handleTouchEnd (handleTouchMove 1 (handleTouchStart 100 noTouch)) [exA, exB] = NavigateNext"
  by (simp add: hasMultipleUrls_def activeUrl_def minSwipeDistance_def handleTouchEnd_def
      handleTouchMove_def handleTouchStart_def falsy_def noTouch_def exA_def exB_def)

section \<open>Normalising a url\<close>

lemma dropWhile_guard:
  "p \<noteq> [] \<Longrightarrow> \<not> P (hd p) \<Longrightarrow> dropWhile P (p @ r) = p @ r"
  by (cases p) auto

lemma dropWhile_rev_guard:
  "p \<noteq> [] \<Longrightarrow> \<not> P (last p) \<Longrightarrow>
   dropWhile P (rev r @ rev p) = dropWhile P (rev r) @ rev p"
proof (induction "rev r" arbitrary: r)
  case Nil
  then show ?case by (cases "rev p") (auto simp: hd_rev)
next
  case (Cons x xs)
  from Cons(2) have r: "r = rev xs @ [x]"
    by (metis rev.simps(2) rev_rev_ident)
  have "xs = rev (rev xs)" by simp
  from Cons(1) [OF this Cons(3) Cons(4)] show ?case
    by (simp add: r)
qed

lemma trim_guard:
  assumes "p \<noteq> []" "\<not> isWhiteSpace (hd p)" "\<not> isWhiteSpace (last p)"
  shows "trim (p @ r) = p @ rev (dropWhile isWhiteSpace (rev r))"
  using assms by (simp add: trim_def dropWhile_guard dropWhile_rev_guard)

lemma trim_ends:
  assumes "trim u \<noteq> []"
  shows "\<not> isWhiteSpace (last (trim u))"
proof -
  let ?b = "dropWhile isWhiteSpace (rev (dropWhile isWhiteSpace u))"
  from assms have "?b \<noteq> []" by (simp add: trim_def)
  then have "\<not> isWhiteSpace (hd ?b)" by (metis hd_dropWhile)
  moreover have "last (trim u) = hd ?b"
    using \<open>?b \<noteq> []\<close> by (simp add: trim_def last_rev)
  ultimately show ?thesis by simp
qed

lemma rev_dropWhile_fixed:
  "t = [] \<or> \<not> P (last t) \<Longrightarrow> rev (dropWhile P (rev t)) = t"
  by (cases "rev t") (auto simp: last_rev)

lemma last_dropWhile: "dropWhile P xs \<noteq> [] \<Longrightarrow> last (dropWhile P xs) = last xs"
  by (induction xs) (auto split: if_splits)

lemma trim_fixed:
  assumes "s \<noteq> []" "\<not> isWhiteSpace (hd s)" "\<not> isWhiteSpace (last s)"
  shows "trim s = s"
  using trim_guard [OF assms, of "[]"] by simp

lemma trim_idem: "trim (trim u) = trim u"
proof -
  define a where "a = dropWhile isWhiteSpace u"
  define b where "b = dropWhile isWhiteSpace (rev a)"
  have t: "trim u = rev b" by (simp add: trim_def a_def b_def)
  show ?thesis
  proof (cases "b = []")
    case True
    with t have "trim u = []" by simp
    moreover have "trim [] = []" by (simp add: trim_def)
    ultimately show ?thesis by simp
  next
    case False
    then have hb: "\<not> isWhiteSpace (hd b)" unfolding b_def by (metis hd_dropWhile)
    have a: "a \<noteq> []" using False by (auto simp: b_def)
    then have ha: "\<not> isWhiteSpace (hd a)" unfolding a_def by (metis hd_dropWhile)
    have "last b = last (rev a)" using False unfolding b_def by (rule last_dropWhile)
    then have lb: "last b = hd a" using a by (simp add: last_rev)
    have "trim (rev b) = rev b"
    proof (rule trim_fixed)
      show "rev b \<noteq> []" using False by simp
      show "\<not> isWhiteSpace (hd (rev b))" using False ha lb by (simp add: hd_rev)
      show "\<not> isWhiteSpace (last (rev b))" using False hb by (simp add: last_rev)
    qed
    with t show ?thesis by simp
  qed
qed

lemma scheme_guards:
  "js ''http://'' \<noteq> []" "\<not> isWhiteSpace (hd (js ''http://''))" "\<not> isWhiteSpace (last (js ''http://''))"
  "js ''https://'' \<noteq> []" "\<not> isWhiteSpace (hd (js ''https://''))" "\<not> isWhiteSpace (last (js ''https://''))"
  by (simp_all add: js_def isWhiteSpace_def)

lemma startsWith_append: "startsWith (p @ r) p"
  by (simp add: startsWith_def)

lemma startsWith_split: "startsWith s p \<Longrightarrow> s = p @ drop (length p) s"
  by (metis append_take_drop_id startsWith_def)

lemma trim_keeps_scheme:
  assumes "p \<noteq> []" "\<not> isWhiteSpace (hd p)" "\<not> isWhiteSpace (last p)" "startsWith s p"
  shows "startsWith (trim s) p"
proof -
  from assms(4) have "s = p @ drop (length p) s" by (rule startsWith_split)
  then have "trim s = p @ rev (dropWhile isWhiteSpace (rev (drop (length p) s)))"
    using trim_guard [OF assms(1-3)] by metis
  then show ?thesis by (simp add: startsWith_append)
qed

lemma normalizeUrl_scheme:
  "startsWith s (js ''http://'') \<or> startsWith s (js ''https://'') \<Longrightarrow> normalizeUrl s = trim s"
  by (auto simp: normalizeUrl_def Let_def dest: trim_keeps_scheme [OF scheme_guards(1-3)]
      trim_keeps_scheme [OF scheme_guards(4-6)])

lemma normalizeUrl_idem: "normalizeUrl (normalizeUrl s) = normalizeUrl s"
proof (cases "startsWith (trim s) (js ''http://'') \<or> startsWith (trim s) (js ''https://'')")
  case True
  then have "normalizeUrl s = trim s" by (auto simp: normalizeUrl_def)
  moreover have "normalizeUrl (trim s) = trim (trim s)"
    using True by (rule normalizeUrl_scheme)
  ultimately show ?thesis by (simp add: trim_idem)
next
  case False
  then have n: "normalizeUrl s = js ''https://'' @ trim s" by (auto simp: normalizeUrl_def)
  have "trim s = [] \<or> \<not> isWhiteSpace (last (trim s))" using trim_ends by blast
  then have "rev (dropWhile isWhiteSpace (rev (trim s))) = trim s"
    by (rule rev_dropWhile_fixed)
  then have "trim (js ''https://'' @ trim s) = js ''https://'' @ trim s"
    using trim_guard [OF scheme_guards(4-6), of "trim s"] by simp
  moreover have "startsWith (js ''https://'' @ trim s) (js ''https://'')"
    by (rule startsWith_append)
  ultimately have "normalizeUrl (js ''https://'' @ trim s) = js ''https://'' @ trim s"
    by (simp add: normalizeUrl_def)
  with n show ?thesis by simp
qed

text \<open>
  C6, as the claim states it, fails: a string that begins with a scheme and ends with a
  space is changed by normalisation, which trims it.
\<close>

theorem normalizeUrl_trailing_space_counterexample:
  "startsWith (js ''https://example.com '') (js ''https://'') \<and>
   normalizeUrl (js ''https://example.com '') = js ''https://example.com'' \<and>
   normalizeUrl (js ''https://example.com '') \<noteq> js ''https://example.com ''"
  by (simp add: normalizeUrl_def startsWith_def trim_def js_def isWhiteSpace_def)

text \<open>
  C6, amended. On a string that begins with \<open>http://\<close> or \<open>https://\<close> normalisation
  is trimming, so it changes nothing when the string has no whitespace at its end;
  \<open>example.com\<close> becomes \<open>https://example.com\<close>, which normalisation leaves as it is;
  and normalising twice gives what normalising once gives, for every string.
\<close>

theorem normalizeUrl_idempotent:
  "(startsWith s (js ''http://'') \<or> startsWith s (js ''https://'') \<longrightarrow>
      normalizeUrl s = trim s \<and> (trim s = s \<longrightarrow> normalizeUrl s = s)) \<and>
   normalizeUrl (js ''example.com'') = js ''https://example.com'' \<and>
   normalizeUrl (js ''https://example.com'') = js ''https://example.com'' \<and>
   normalizeUrl (normalizeUrl s) = normalizeUrl s"
proof -
  have "normalizeUrl (js ''example.com'') = js ''https://example.com''"
    by (simp add: normalizeUrl_def startsWith_def trim_def js_def isWhiteSpace_def)
  moreover have "normalizeUrl (js ''https://example.com'') = js ''https://example.com''"
    by (simp add: normalizeUrl_def startsWith_def trim_def js_def isWhiteSpace_def)
  ultimately show ?thesis
    using normalizeUrl_scheme [of s] normalizeUrl_idem [of s] by auto
qed

theorem normalizeUrl_idempotent_witness:
  "startsWith (js ''http://a.org/x'') (js ''http://'') \<and> trim (js ''http://a.org/x'') = js ''http://a.org/x'' \<and>
   normalizeUrl (js ''http://a.org/x'') = js ''http://a.org/x'' \<and>
   normalizeUrl (normalizeUrl (js ''http://a.org/x'')) = normalizeUrl (js ''http://a.org/x'')"
proof -
  have h: "startsWith (js ''http://a.org/x'') (js ''http://'')"
    by (simp add: startsWith_def js_def)
  have t: "trim (js ''http://a.org/x'') = js ''http://a.org/x''"
    by (simp add: trim_def js_def isWhiteSpace_def)
  show ?thesis
    using h t normalizeUrl_idempotent [of "js ''http://a.org/x''"] by simp
qed

section \<open>Deleting a record\<close>

lemma find_id_Some:
  "find (\<lambda>u. id' u = i) urls = Some a \<Longrightarrow> a \<in> set urls \<and> id' a = i"
  by (induction urls) (auto split: if_splits)

lemma find_id_present:
  "i \<in> set (map id' urls) \<Longrightarrow> \<exists>a. find (\<lambda>u. id' u = i) urls = Some a"
  by (induction urls) auto

lemma filter_id_distinct:
  "distinct (map id' urls) \<Longrightarrow> a \<in> set urls \<Longrightarrow> filter (\<lambda>u. id' u = id' a) urls = [a]"
proof (induction urls)
  case Nil
  then show ?case by simp
next
  case (Cons u urls)
  show ?case
  proof (cases "u = a")
    case True
    from Cons.prems(1) have "id' u \<notin> id' ` set urls" by simp
    with True have "\<forall>v\<in>set urls. id' v \<noteq> id' a" by (metis imageI)
    then have "filter (\<lambda>u. id' u = id' a) urls = []" by (simp add: filter_empty_conv)
    with True show ?thesis by simp
  next
    case False
    with Cons.prems have "a \<in> set urls" "id' u \<noteq> id' a" by force+
    with Cons show ?thesis by simp
  qed
qed

lemma length_filter_split:
  "length (filter P xs) =
     length (filter P (filter Q xs)) + length (filter P (filter (\<lambda>x. \<not> Q x) xs))"
  by (induction xs) auto

lemma activeCount_split:
  assumes "distinct (map id' urls)" "a \<in> set urls"
  shows "activeCount urls =
     activeCount (filter (\<lambda>u. id' u \<noteq> id' a) urls) + (if isActive a then 1 else 0)"
proof -
  have "activeCount urls =
      length (filter isActive (filter (\<lambda>u. id' u \<noteq> id' a) urls)) +
      length (filter isActive (filter (\<lambda>u. \<not> id' u \<noteq> id' a) urls))"
    unfolding activeCount_def by (rule length_filter_split)
  then show ?thesis
    using filter_id_distinct [OF assms] by (simp add: activeCount_def)
qed

lemma remaining_length:
  assumes "distinct (map id' urls)" "a \<in> set urls"
  shows "length (filter (\<lambda>u. id' u \<noteq> id' a) urls) = length urls - 1"
proof -
  have "length urls = length (filter (\<lambda>u. id' u = id' a) urls) +
      length (filter (\<lambda>u. \<not> id' u = id' a) urls)"
    by (metis sum_length_filter_compl)
  then show ?thesis using filter_id_distinct [OF assms] by simp
qed

lemma deleteUrl_found:
  assumes "find (\<lambda>u. id' u = i) urls = Some a"
  shows "deleteUrl i urls =
     (if isActive a \<and> filter (\<lambda>u. id' u \<noteq> i) urls \<noteq> []
      then (hd (filter (\<lambda>u. id' u \<noteq> i) urls))\<lparr> isActive := True \<rparr> #
           tl (filter (\<lambda>u. id' u \<noteq> i) urls)
      else filter (\<lambda>u. id' u \<noteq> i) urls)"
  using assms by (simp add: deleteUrl_def Let_def)

text \<open>
  C4. In a collection with distinct identifiers (I3) whose record with the given
  identifier is active, \<open>deleteUrl\<close> on two or more records returns the remaining records
  in their order with the first of them made active, one record fewer than before; on a
  single record it returns the empty collection, which has no active record.
\<close>

theorem deleteUrl_active_reassigns_first:
  assumes "I3 urls" and "find (\<lambda>u. id' u = i) urls = Some a" and "isActive a"
  shows "(2 \<le> length urls \<longrightarrow>
            deleteUrl i urls =
              (hd (filter (\<lambda>u. id' u \<noteq> i) urls))\<lparr> isActive := True \<rparr> #
              tl (filter (\<lambda>u. id' u \<noteq> i) urls) \<and>
            length (deleteUrl i urls) = length urls - 1 \<and>
            isActive (hd (deleteUrl i urls)) \<and>
            activeUrl (deleteUrl i urls) = Some (hd (deleteUrl i urls))) \<and>
         (length urls = 1 \<longrightarrow> deleteUrl i urls = [] \<and> activeUrl (deleteUrl i urls) = None)"
proof -
  let ?rem = "filter (\<lambda>u. id' u \<noteq> i) urls"
  from assms(2) have a: "a \<in> set urls" "id' a = i" using find_id_Some by blast+
  have len: "length ?rem = length urls - 1"
    using remaining_length [OF assms(1) [unfolded I3_def] a(1)] a(2) by simp
  have d: "deleteUrl i urls = (if ?rem \<noteq> [] then (hd ?rem)\<lparr> isActive := True \<rparr> # tl ?rem else ?rem)"
    using deleteUrl_found [OF assms(2)] assms(3) by simp
  have big: "2 \<le> length urls \<Longrightarrow> ?rem \<noteq> []" using len by auto
  have one: "length urls = 1 \<Longrightarrow> ?rem = []" using len by simp
  show ?thesis
  proof (intro conjI impI)
    assume "2 \<le> length urls"
    then show "deleteUrl i urls = (hd ?rem)\<lparr> isActive := True \<rparr> # tl ?rem"
      using d big by simp
  next
    assume "2 \<le> length urls"
    then have "length (deleteUrl i urls) = Suc (length (tl ?rem))" using d big by simp
    also have "\<dots> = length ?rem" using big [OF \<open>2 \<le> length urls\<close>] by simp
    finally show "length (deleteUrl i urls) = length urls - 1" using len by simp
  next
    assume "2 \<le> length urls"
    then show "isActive (hd (deleteUrl i urls))" using d big by simp
  next
    assume "2 \<le> length urls"
    then show "activeUrl (deleteUrl i urls) = Some (hd (deleteUrl i urls))"
      using d big by (simp add: activeUrl_def)
  next
    assume "length urls = 1"
    then show "deleteUrl i urls = []" using d one by simp
  next
    assume "length urls = 1"
    then show "activeUrl (deleteUrl i urls) = None" using d one by (simp add: activeUrl_def)
  qed
qed

theorem deleteUrl_active_reassigns_first_witness:
  "I3 [exA, exB, exC] \<and> find (\<lambda>u. id' u = js ''a'') [exA, exB, exC] = Some exA \<and> isActive exA \<and>
   deleteUrl (js ''a'') [exA, exB, exC] = [exB\<lparr> isActive := True \<rparr>, exC] \<and>
   I3 [exA] \<and> find (\<lambda>u. id' u = js ''a'') [exA] = Some exA \<and>
   deleteUrl (js ''a'') [exA] = []"
proof -
  have h1: "I3 [exA, exB, exC]" by (simp add: I3_def ex_defs)
  have h2: "find (\<lambda>u. id' u = js ''a'') [exA, exB, exC] = Some exA" by (simp add: ex_defs)
  have h3: "isActive exA" by (simp add: ex_defs)
  have h4: "I3 [exA]" by (simp add: I3_def)
  have h5: "find (\<lambda>u. id' u = js ''a'') [exA] = Some exA" by (simp add: ex_defs)
  have f: "filter (\<lambda>u. id' u \<noteq> js ''a'') [exA, exB, exC] = [exB, exC]" by (simp add: ex_defs)
  have g: "(2::nat) \<le> length [exA, exB, exC]" "length [exA] = 1" by simp_all
  from deleteUrl_active_reassigns_first [OF h1 h2 h3] g(1)
  have "deleteUrl (js ''a'') [exA, exB, exC] =
      (hd (filter (\<lambda>u. id' u \<noteq> js ''a'') [exA, exB, exC]))\<lparr> isActive := True \<rparr> #
      tl (filter (\<lambda>u. id' u \<noteq> js ''a'') [exA, exB, exC])"
    by blast
  then have r1: "deleteUrl (js ''a'') [exA, exB, exC] = [exB\<lparr> isActive := True \<rparr>, exC]"
    by (simp only: f list.sel)
  from deleteUrl_active_reassigns_first [OF h4 h5 h3] g(2)
  have r2: "deleteUrl (js ''a'') [exA] = []" by blast
  from h1 h2 h3 h4 h5 r1 r2 show ?thesis by blast
qed

section \<open>The invariants along a run\<close>

lemma I2_imp_I1: "I2 urls \<Longrightarrow> I1 urls"
  by (cases urls) (auto simp: I1_def I2_def activeCount_def)

lemma addUrl_inv:
  assumes "I3 urls" "I2 urls" "\<not> hasId newId urls"
  shows "I3 (addUrl urls urlData newId now) \<and> I2 (addUrl urls urlData newId now)"
  using assms by (auto simp: I3_def I2_def hasId_def addUrl_def activeCount_def)

lemma updateUrl_ids: "map id' (updateUrl i urlData urls) = map id' urls"
  by (induction urls) (auto simp: updateUrl_def)

lemma updateUrl_activeCount: "activeCount (updateUrl i urlData urls) = activeCount urls"
  by (induction urls) (auto simp: updateUrl_def activeCount_def)

lemma updateUrl_inv:
  assumes "I3 urls" "I2 urls"
  shows "I3 (updateUrl i urlData urls) \<and> I2 (updateUrl i urlData urls)"
proof -
  have "updateUrl i urlData urls = [] \<longleftrightarrow> urls = []" by (simp add: updateUrl_def)
  with assms show ?thesis
    by (simp add: I3_def I2_def updateUrl_ids updateUrl_activeCount)
qed

lemma setActiveUrl_ids: "map id' (setActiveUrl i urls) = map id' urls"
  by (induction urls) (auto simp: setActiveUrl_def)

lemma setActiveUrl_activeCount:
  "activeCount (setActiveUrl i urls) = length (filter (\<lambda>u. id' u = i) urls)"
  by (induction urls) (auto simp: setActiveUrl_def activeCount_def)

lemma setActiveUrl_inv:
  assumes "I3 urls" "hasId i urls"
  shows "I3 (setActiveUrl i urls) \<and> I2 (setActiveUrl i urls)"
proof -
  from assms(2) obtain a where a: "a \<in> set urls" "id' a = i"
    by (auto simp: hasId_def)
  have "filter (\<lambda>u. id' u = i) urls = [a]"
    using filter_id_distinct [OF assms(1) [unfolded I3_def] a(1)] a(2) by simp
  then have "activeCount (setActiveUrl i urls) = 1"
    by (simp add: setActiveUrl_activeCount)
  with assms(1) show ?thesis
    by (simp add: I3_def I2_def setActiveUrl_ids)
qed

lemma activeCount_zero_tl: "activeCount xs = 0 \<Longrightarrow> activeCount (tl xs) = 0"
  by (cases xs) (auto simp: activeCount_def split: if_splits)

lemma deleteUrl_inv:
  assumes "I3 urls" "I2 urls"
  shows "I3 (deleteUrl i urls) \<and> I2 (deleteUrl i urls)"
proof (cases "find (\<lambda>u. id' u = i) urls")
  case None
  then have "\<not> hasId i urls"
    using find_id_present [of i urls] by (auto simp: hasId_def)
  then have "deleteUrl i urls = urls"
    by (simp add: hasId_def deleteUrl_def find_absent filter_absent del: set_map)
  with assms show ?thesis by simp
next
  case (Some a)
  let ?rem = "filter (\<lambda>u. id' u \<noteq> i) urls"
  from Some have a: "a \<in> set urls" "id' a = i" using find_id_Some by blast+
  then have ne: "urls \<noteq> []" by auto
  have d: "distinct (map id' urls)" using assms(1) by (simp add: I3_def)
  have drem: "distinct (map id' ?rem)" using d by (rule distinct_map_filter)
  have cnt: "activeCount ?rem + (if isActive a then 1 else 0) = 1"
    using activeCount_split [OF d a(1)] a(2) assms(2) ne by (simp add: I2_def)
  show ?thesis
  proof (cases "isActive a \<and> ?rem \<noteq> []")
    case True
    then have del: "deleteUrl i urls = (hd ?rem)\<lparr> isActive := True \<rparr> # tl ?rem"
      using deleteUrl_found [OF Some] by simp
    from True cnt have "activeCount ?rem = 0" by simp
    then have "activeCount (tl ?rem) = 0" by (rule activeCount_zero_tl)
    then have c: "activeCount (deleteUrl i urls) = 1"
      by (simp add: del activeCount_def)
    have "map id' (deleteUrl i urls) = map id' (hd ?rem # tl ?rem)"
      by (simp add: del)
    also have "\<dots> = map id' ?rem" using True by simp
    finally have "distinct (map id' (deleteUrl i urls))" using drem by simp
    with c show ?thesis by (simp add: I3_def I2_def)
  next
    case False
    then have del: "deleteUrl i urls = ?rem"
      using deleteUrl_found [OF Some] by auto
    have "?rem \<noteq> [] \<longrightarrow> activeCount ?rem = 1"
      using False cnt by auto
    with drem show ?thesis by (simp add: del I3_def I2_def)
  qed
qed

lemma step_inv:
  "I3 urls \<Longrightarrow> I2 urls \<Longrightarrow> admissible urls x \<Longrightarrow> I3 (step urls x) \<and> I2 (step urls x)"
  by (cases x) (simp_all add: addUrl_inv updateUrl_inv deleteUrl_inv setActiveUrl_inv)

lemma run_inv:
  "admissibleRun urls ops \<Longrightarrow> I3 urls \<Longrightarrow> I2 urls \<Longrightarrow> I3 (run urls ops) \<and> I2 (run urls ops)"
proof (induction ops arbitrary: urls)
  case Nil
  then show ?case by (simp add: run_def)
next
  case (Cons x ops)
  from Cons.prems have "I3 (step urls x) \<and> I2 (step urls x)"
    by (simp add: step_inv)
  moreover from Cons.prems have "admissibleRun (step urls x) ops" by simp
  ultimately have "I3 (run (step urls x) ops) \<and> I2 (run (step urls x) ops)"
    using Cons.IH by blast
  then show ?case by (simp add: run_def)
qed

lemma admissibleRun_take: "admissibleRun urls ops \<Longrightarrow> admissibleRun urls (take n ops)"
proof (induction ops arbitrary: urls n)
  case Nil
  then show ?case by simp
next
  case (Cons x ops)
  then show ?case by (cases n) simp_all
qed

text \<open>
  C1, as the claim states it, fails. After adding one record, activating an identifier
  that no record has leaves a non-empty collection with no active record (I2 fails);
  and when an identifier is added twice, activating it gives two active records (I1
  fails).
\<close>

theorem store_invariants_counterexample:
  "run [] [Add exForm (js ''a'') 1, SetActive (js ''z'')] = [exA\<lparr> url := UrlFormData.url exForm, title := UrlFormData.title exForm, isActive := False \<rparr>] \<and>
   \<not> I2 (run [] [Add exForm (js ''a'') 1, SetActive (js ''z'')]) \<and>
   \<not> I1 (run [] [Add exForm (js ''a'') 1, Add exForm (js ''a'') 2, SetActive (js ''a'')])"
  by (simp add: run_def addUrl_def setActiveUrl_def I1_def I2_def activeCount_def ex_defs)

text \<open>
  C1, amended. Start from the empty collection and run any finite sequence of
  add, update, delete and setActive operations in which every add brings an identifier
  that no record of the collection has and every setActive names an identifier of a
  record of the collection. After each operation of the sequence the collection
  satisfies I1 and I2 (and I3).
\<close>

theorem store_invariants:
  assumes "admissibleRun [] ops" and "n \<le> length ops"
  shows "I1 (run [] (take n ops)) \<and> I2 (run [] (take n ops)) \<and> I3 (run [] (take n ops))"
proof -
  have "admissibleRun [] (take n ops)" using assms(1) by (rule admissibleRun_take)
  moreover have "I3 []" "I2 []" by (simp_all add: I3_def I2_def)
  ultimately have "I3 (run [] (take n ops)) \<and> I2 (run [] (take n ops))"
    by (rule run_inv)
  then show ?thesis by (simp add: I2_imp_I1)
qed

theorem store_invariants_witness:
  "admissibleRun [] [Add exForm (js ''a'') 1, Add exForm (js ''b'') 2, SetActive (js ''b''),
                     Update (js ''a'') exForm, Delete (js ''b'')] \<and>
   I1 (run [] [Add exForm (js ''a'') 1, Add exForm (js ''b'') 2, SetActive (js ''b''),
               Update (js ''a'') exForm, Delete (js ''b'')]) \<and>
   I2 (run [] [Add exForm (js ''a'') 1, Add exForm (js ''b'') 2, SetActive (js ''b''),
               Update (js ''a'') exForm, Delete (js ''b'')]) \<and>
   run [] [Add exForm (js ''a'') 1, Add exForm (js ''b'') 2, SetActive (js ''b''),
               Update (js ''a'') exForm, Delete (js ''b'')] \<noteq> []"
proof -
  let ?ops = "[Add exForm (js ''a'') 1, Add exForm (js ''b'') 2, SetActive (js ''b''),
               Update (js ''a'') exForm, Delete (js ''b'')]"
  have h: "admissibleRun [] ?ops"
    by (simp add: hasId_def addUrl_def setActiveUrl_def updateUrl_def js_def)
  have n: "(5::nat) \<le> length ?ops" by simp
  have ne: "run [] ?ops \<noteq> []"
    by (simp add: run_def addUrl_def setActiveUrl_def updateUrl_def deleteUrl_def js_def)
  from store_invariants [OF h n] have "I1 (run [] ?ops) \<and> I2 (run [] ?ops)" by simp
  with h ne show ?thesis by blast
qed

section \<open>Carousel navigation\<close>

lemma ids_nth_eq:
  assumes "I3 urls" "k < length urls" "j < length urls"
  shows "id' (urls ! k) = id' (urls ! j) \<longleftrightarrow> k = j"
proof -
  have "distinct (map id' urls)" using assms(1) by (simp add: I3_def)
  from nth_eq_iff_index_eq [OF this, of k j] assms(2,3) show ?thesis by simp
qed

lemma activeUrl_Some: "activeUrl urls = Some a \<Longrightarrow> a \<in> set urls \<and> isActive a"
  unfolding activeUrl_def by (induction urls) (auto split: if_splits)

lemma goNext_from_last:
  assumes "2 \<le> length urls" "currentIndex urls (activeUrl urls) = int (length urls) - 1"
  shows "goNext urls = Inr (setActiveUrl (id' (urls ! 0)) urls)"
proof -
  have ne: "urls \<noteq> []" using assms(1) by auto
  have "(currentIndex urls (activeUrl urls) + 1) mod int (length urls) = 0"
    using assms(2) by simp
  moreover have "currentIndex urls (activeUrl urls) \<noteq> - 1" using assms by linarith
  moreover have "idAt urls 0 = Inr (id' (urls ! 0))" using ne by (simp add: idAt_def)
  ultimately show ?thesis
    using assms(1) by (simp add: goNext_def navigateNext_def onSetActiveUrl_def hasMultipleUrls_def)
qed

lemma goPrevious_from_first:
  assumes "2 \<le> length urls" "currentIndex urls (activeUrl urls) = 0"
  shows "goPrevious urls = Inr (setActiveUrl (id' (urls ! (length urls - 1))) urls)"
proof -
  have ne: "urls \<noteq> []" using assms(1) by auto
  have "idAt urls (int (length urls) - 1) = Inr (id' (urls ! (length urls - 1)))"
    using ne by (simp add: idAt_def nat_diff_distrib')
  then show ?thesis
    using assms by (simp add: goPrevious_def navigatePrevious_def onSetActiveUrl_def hasMultipleUrls_def)
qed

lemma go_single:
  assumes "length urls < 2"
  shows "goNext urls = Inr urls" "goPrevious urls = Inr urls"
  using assms
  by (simp_all add: goNext_def goPrevious_def navigateNext_def navigatePrevious_def
      onSetActiveUrl_def hasMultipleUrls_def)

text \<open>
  Under I3 the index that the carousel computes for a record of the collection, by
  looking its identifier up, is the position of that record.
\<close>

lemma findIndex_first:
  "j < length xs \<Longrightarrow> P (xs ! j) \<Longrightarrow> (\<forall>m<j. \<not> P (xs ! m)) \<Longrightarrow> findIndex P xs = int j"
proof (induction xs arbitrary: j)
  case Nil
  then show ?case by simp
next
  case (Cons x xs)
  show ?case
  proof (cases j)
    case 0
    with Cons.prems show ?thesis by simp
  next
    case (Suc n)
    with Cons.prems have n: "n < length xs" "P (xs ! n)" by simp_all
    have "\<forall>m<n. \<not> P (xs ! m)"
    proof (intro allI impI)
      fix m assume "m < n"
      then have "Suc m < j" using Suc by simp
      with Cons.prems(3) have "\<not> P ((x # xs) ! Suc m)" by blast
      then show "\<not> P (xs ! m)" by simp
    qed
    with n have "findIndex P xs = int n" by (rule Cons.IH)
    moreover have "\<not> P x" using Cons.prems(3) Suc by force
    ultimately show ?thesis using Suc by simp
  qed
qed

lemma currentIndex_position:
  assumes "I3 urls" "j < length urls"
  shows "currentIndex urls (Some (urls ! j)) = int j"
proof -
  have "\<forall>m<j. id' (urls ! m) \<noteq> id' (urls ! j)"
    using ids_nth_eq [OF assms(1) _ assms(2)] assms(2) by auto
  with assms(2) have "findIndex (\<lambda>u. id' u = id' (urls ! j)) urls = int j"
    by (intro findIndex_first) simp_all
  then show ?thesis by (simp add: currentIndex_def)
qed

text \<open>
  C7. Take a collection with distinct identifiers (I3) whose active record is \<open>a\<close>, and
  any position \<open>k\<close> of it. When \<open>a\<close> is the record at the last index, \<open>goNext\<close> throws
  nothing and returns the collection with the flag of position \<open>k\<close> set exactly when
  \<open>k = 0\<close>; when \<open>a\<close> is the record at index 0, \<open>goPrevious\<close> returns the collection with
  the flag of position \<open>k\<close> set exactly when \<open>k\<close> is the last index; all other fields are
  kept. With fewer than two records both return the collection unchanged.
\<close>

theorem navigation_wraps:
  assumes "I3 urls" and "activeUrl urls = Some a" and "k < length urls"
  shows "(urls ! (length urls - 1) = a \<longrightarrow>
            (\<exists>r. goNext urls = Inr r \<and> length r = length urls \<and>
                 r ! k = (urls ! k)\<lparr> isActive := (k = 0) \<rparr>)) \<and>
         (urls ! 0 = a \<longrightarrow>
            (\<exists>r. goPrevious urls = Inr r \<and> length r = length urls \<and>
                 r ! k = (urls ! k)\<lparr> isActive := (k = length urls - 1) \<rparr>)) \<and>
         (length urls < 2 \<longrightarrow> goNext urls = Inr urls \<and> goPrevious urls = Inr urls)"
proof (cases "2 \<le> length urls")
  case True
  have ne: "urls \<noteq> []" using True by auto
  have n: "goNext urls = Inr (setActiveUrl (id' (urls ! 0)) urls)"
    if "urls ! (length urls - 1) = a"
  proof -
    have "currentIndex urls (Some (urls ! (length urls - 1))) = int (length urls - 1)"
      using assms(1) ne by (intro currentIndex_position) simp_all
    then have "currentIndex urls (activeUrl urls) = int (length urls) - 1"
      using that assms(2) ne by (simp add: of_nat_diff Suc_leI)
    with True show ?thesis by (rule goNext_from_last)
  qed
  have p: "goPrevious urls = Inr (setActiveUrl (id' (urls ! (length urls - 1))) urls)"
    if "urls ! 0 = a"
  proof -
    have "currentIndex urls (Some (urls ! 0)) = int 0"
      using assms(1) ne by (intro currentIndex_position) simp_all
    then have "currentIndex urls (activeUrl urls) = 0"
      using that assms(2) by simp
    with True show ?thesis by (rule goPrevious_from_first)
  qed
  have k0: "id' (urls ! k) = id' (urls ! 0) \<longleftrightarrow> k = 0"
    using ids_nth_eq [OF assms(1) assms(3), of 0] ne by simp
  have kl: "id' (urls ! k) = id' (urls ! (length urls - 1)) \<longleftrightarrow> k = length urls - 1"
    using ids_nth_eq [OF assms(1) assms(3), of "length urls - 1"] ne by simp
  show ?thesis
    using True n p k0 kl assms(3) by (auto simp: setActiveUrl_def)
next
  case False
  then have one: "length urls < 2" by simp
  with assms(3) have k: "k = 0" "length urls = 1" by simp_all
  then obtain u where u: "urls = [u]" by (cases urls) auto
  with assms(2) have "isActive u" using activeUrl_Some by fastforce
  then have "urls ! k = (urls ! k)\<lparr> isActive := True \<rparr>" using u k by simp
  then show ?thesis
    using go_single [OF one] k by auto
qed

theorem navigation_wraps_witness:
  "I3 [exB, exC, exA] \<and> activeUrl [exB, exC, exA] = Some exA \<and>
   [exB, exC, exA] ! (length [exB, exC, exA] - 1) = exA \<and>
   goNext [exB, exC, exA] = Inr [exB\<lparr> isActive := True \<rparr>, exC, exA\<lparr> isActive := False \<rparr>] \<and>
   I3 [exA, exB, exC] \<and> activeUrl [exA, exB, exC] = Some exA \<and>
   [exA, exB, exC] ! 0 = exA \<and>
   goPrevious [exA, exB, exC] = Inr [exA\<lparr> isActive := False \<rparr>, exB, exC\<lparr> isActive := True \<rparr>] \<and>
   I3 [exA] \<and> activeUrl [exA] = Some exA \<and> length [exA] < 2 \<and>
   goNext [exA] = Inr [exA] \<and> goPrevious [exA] = Inr [exA]"
proof -
  have i1: "I3 [exB, exC, exA]" and i2: "I3 [exA, exB, exC]" and i3: "I3 [exA]"
    by (simp_all add: I3_def ex_defs)
  have a1: "activeUrl [exB, exC, exA] = Some exA" and a2: "activeUrl [exA, exB, exC] = Some exA"
    and a3: "activeUrl [exA] = Some exA"
    by (simp_all add: activeUrl_def ex_defs)
  have p1: "[exB, exC, exA] ! (length [exB, exC, exA] - 1) = exA" by simp
  have p2: "[exA, exB, exC] ! 0 = exA" by simp
  have f: "exB\<lparr> isActive := False \<rparr> = exB" "exC\<lparr> isActive := False \<rparr> = exC"
    by (simp_all add: ex_defs)
  have g1: "goNext [exB, exC, exA] = Inr [exB\<lparr> isActive := True \<rparr>, exC, exA\<lparr> isActive := False \<rparr>]"
  proof -
    from navigation_wraps [OF i1 a1, of 0] p1
    obtain r0 where r0: "goNext [exB, exC, exA] = Inr r0" "length r0 = 3"
      "r0 ! 0 = exB\<lparr> isActive := True \<rparr>" by auto
    from navigation_wraps [OF i1 a1, of 1] p1 r0(1)
    have r1: "r0 ! 1 = exC" by (auto simp: f)
    from navigation_wraps [OF i1 a1, of 2] p1 r0(1)
    have r2: "r0 ! 2 = exA\<lparr> isActive := False \<rparr>" by auto
    have "r0 = [r0 ! 0, r0 ! 1, r0 ! 2]"
      using r0(2) by (intro nth_equalityI) (auto simp: less_Suc_eq numeral_3_eq_3 numeral_2_eq_2)
    with r0 r1 r2 show ?thesis by simp
  qed
  have g2: "goPrevious [exA, exB, exC] = Inr [exA\<lparr> isActive := False \<rparr>, exB, exC\<lparr> isActive := True \<rparr>]"
  proof -
    from navigation_wraps [OF i2 a2, of 0] p2
    obtain r0 where r0: "goPrevious [exA, exB, exC] = Inr r0" "length r0 = 3"
      "r0 ! 0 = exA\<lparr> isActive := False \<rparr>" by auto
    from navigation_wraps [OF i2 a2, of 1] p2 r0(1)
    have r1: "r0 ! 1 = exB" by (auto simp: f)
    from navigation_wraps [OF i2 a2, of 2] p2 r0(1)
    have r2: "r0 ! 2 = exC\<lparr> isActive := True \<rparr>" by auto
    have "r0 = [r0 ! 0, r0 ! 1, r0 ! 2]"
      using r0(2) by (intro nth_equalityI) (auto simp: less_Suc_eq numeral_3_eq_3 numeral_2_eq_2)
    with r0 r1 r2 show ?thesis by simp
  qed
  have g3: "goNext [exA] = Inr [exA] \<and> goPrevious [exA] = Inr [exA]"
    using navigation_wraps [OF i3 a3, of 0] by simp
  from i1 i2 i3 a1 a2 a3 p1 p2 g1 g2 g3 show ?thesis by simp
qed

end
